theory Spec2Isabelle
  imports Main "HOL-Library.Word"
begin

section \<open>Bytes, slices and the library calls the engine uses\<close>

text \<open>
  The engine of \<^verbatim>\<open>main.go\<close> works on Go byte slices and on Go strings, which
  are byte sequences as well. Both are lists of 8-bit words here; \<open>ascii\<close> is the
  conversion \<^verbatim>\<open>[]byte("...")\<close> of a literal.
\<close>

type_synonym byte = "8 word"
type_synonym bytes = "byte list"

definition ascii :: "string \<Rightarrow> bytes" where
  "ascii s = map of_char s"

definition semicolon :: byte where
  "semicolon = 0x3B"

datatype error = EOF | LinkReadError

text \<open>\<^verbatim>\<open>bytes.IndexByte\<close>: the index of the first occurrence, or -1.\<close>

fun IndexByte :: "bytes \<Rightarrow> byte \<Rightarrow> int" where
  "IndexByte [] c = -1"
| "IndexByte (x # xs) c =
     (if x = c then 0
      else (let i = IndexByte xs c in if i < 0 then -1 else i + 1))"

text \<open>
  \<^verbatim>\<open>bytes.HasPrefix\<close>, \<^verbatim>\<open>bytes.HasSuffix\<close> and \<^verbatim>\<open>bytes.CutSuffix\<close>, as the Go
  library defines them: a length test, then a comparison of the slice.
\<close>

definition HasPrefix :: "bytes \<Rightarrow> bytes \<Rightarrow> bool" where
  "HasPrefix s p = (length p \<le> length s \<and> take (length p) s = p)"

definition HasSuffix :: "bytes \<Rightarrow> bytes \<Rightarrow> bool" where
  "HasSuffix s suf = (length suf \<le> length s \<and> drop (length s - length suf) s = suf)"

definition CutSuffix :: "bytes \<Rightarrow> bytes \<Rightarrow> bytes \<times> bool" where
  "CutSuffix s suf =
     (if HasSuffix s suf then (take (length s - length suf) s, True) else (s, False))"

text \<open>
  \<^verbatim>\<open>bytes.ReplaceAll(s, old, new)\<close> for the one call of the engine, where \<open>old\<close>
  and \<open>new\<close> are single bytes: every occurrence is replaced in place.
\<close>

definition ReplaceAll :: "bytes \<Rightarrow> byte \<Rightarrow> byte \<Rightarrow> bytes" where
  "ReplaceAll s old new = map (\<lambda>b. if b = old then new else b) s"

text \<open>
  \<^verbatim>\<open>(*bytes.Buffer).ReadBytes(delim)\<close> on the unread part of the buffer: the
  bytes up to and including the first \<open>delim\<close>, or everything that is left together
  with \<^verbatim>\<open>io.EOF\<close>. The result is the line, the error and the buffer that remains.
\<close>

definition ReadBytes :: "bytes \<Rightarrow> byte \<Rightarrow> bytes \<times> error option \<times> bytes" where
  "ReadBytes buffer delim =
     (let i = IndexByte buffer delim in
      if i < 0 then (buffer, Some EOF, [])
      else (take (nat i + 1) buffer, None, drop (nat i + 1) buffer))"

text \<open>
  \<^verbatim>\<open>strings.Split(s, sep)\<close> for a one-byte separator: the loop of the library cuts
  at each occurrence and ends with the rest, so the result is never empty.
\<close>

function Split :: "bytes \<Rightarrow> byte \<Rightarrow> bytes list" where
  "Split s sep =
     (let m = IndexByte s sep in
      if m < 0 then [s] else take (nat m) s # Split (drop (nat m + 1) s) sep)"
  by pat_completeness auto
termination
proof (relation "measure (\<lambda>(s, sep). length s)")
  show "wf (measure (\<lambda>(s, sep). length s))" by simp
next
  fix s :: bytes and sep :: byte and m :: int
  assume "m = IndexByte s sep" and "\<not> m < 0"
  then have "s \<noteq> []" by (cases s) auto
  then show "((drop (nat m + 1) s, sep), (s, sep)) \<in> measure (\<lambda>(s, sep). length s)"
    by simp
qed

section \<open>The engine\<close>

text \<open>
  The parse and mode flags of \<^verbatim>\<open>SerialStream\<close>. The four channels are not fields
  here: a send on a channel is an entry of the list a function returns, tagged with
  the channel, so that the order of the sends of one worker is kept across channels.
  The contents a consumer sees on one channel is the projection \<open>queue\<close>.
\<close>

record SerialStream =
  isStreamingMode :: bool
  isTransmitting :: bool
  chunkLength :: nat

datatype chan = AudioOutBuf | AudioInBuf | RepliesBuf | CmdsBuf

type_synonym send = "chan \<times> bytes"

definition queue :: "chan \<Rightarrow> send list \<Rightarrow> bytes list" where
  "queue c sends = map snd (filter (\<lambda>e. fst e = c) sends)"

definition NewSerialStream :: SerialStream where
  "NewSerialStream = \<lparr>isStreamingMode = False, isTransmitting = False, chunkLength = 48\<rparr>"

subsection \<open>Frame demultiplexer\<close>

text \<open>
  \<^verbatim>\<open>handleDataChunk\<close>: the buffer is the accumulator of the receive worker. The
  result is the engine, the accumulator and the sends of this call (none or one).
\<close>

definition handleDataChunk :: "SerialStream \<Rightarrow> bytes \<Rightarrow> SerialStream \<times> bytes \<times> send list" where
  "handleDataChunk ss buffer =
     (if length buffer = 0 then (ss, buffer, [])
      else
        (case ReadBytes buffer semicolon of (data, err, buffer1) \<Rightarrow>
          if err = Some EOF \<and> length data < chunkLength ss \<and> \<not> isStreamingMode ss
          then (ss, buffer1 @ data, [])
          else if isStreamingMode ss then
            (case CutSuffix data [semicolon] of (dataNoDelim, hasDelim) \<Rightarrow>
              (ss\<lparr>isStreamingMode := \<not> hasDelim\<rparr>, buffer1, [(AudioOutBuf, dataNoDelim)]))
          else
            (let ss1 = ss\<lparr>isStreamingMode := HasPrefix data (ascii ''US'')\<rparr> in
             if isStreamingMode ss1 then
               (case CutSuffix (drop 2 data) [semicolon] of (dataNoDelim, _) \<Rightarrow>
                 (ss1, buffer1, [(AudioOutBuf, dataNoDelim)]))
             else (ss1, buffer1, [(RepliesBuf, data)]))))"

text \<open>
  \<^verbatim>\<open>receiveDataStream\<close>: one iteration per read of the link. A read is either the
  bytes \<^verbatim>\<open>chunk[:readCount]\<close> it delivered (at most \<open>chunkLength\<close> of them, the size
  of \<^verbatim>\<open>chunk\<close>) or an error, on which the worker ends the process. The list holds
  the reads made while \<^verbatim>\<open>isRunning\<close> was true.
\<close>

fun receiveLoop ::
  "SerialStream \<Rightarrow> bytes \<Rightarrow> (error + bytes) list \<Rightarrow> send list \<times> (error + SerialStream \<times> bytes)" where
  "receiveLoop ss buffer [] = ([], Inr (ss, buffer))"
| "receiveLoop ss buffer (Inl e # reads) = ([], Inl e)"
| "receiveLoop ss buffer (Inr chunk # reads) =
     (case handleDataChunk ss (buffer @ chunk) of (ss', buffer', out) \<Rightarrow>
       (case receiveLoop ss' buffer' reads of (outs, res) \<Rightarrow> (out @ outs, res)))"

definition receiveDataStream ::
  "SerialStream \<Rightarrow> (error + bytes) list \<Rightarrow> send list \<times> (error + SerialStream \<times> bytes)" where
  "receiveDataStream ss reads = receiveLoop ss [] reads"

subsection \<open>Mode-aware serializer\<close>

text \<open>
  What the send worker does to the link, in order: writes, flushes and sleeps (in
  milliseconds). \<open>selected\<close> is the case the \<^verbatim>\<open>select\<close> of one iteration took.
\<close>

datatype port_op = Write bytes | Flush | Sleep nat

datatype selected = Cmd bytes | Samples bytes

fun sendStep :: "SerialStream \<Rightarrow> selected \<Rightarrow> SerialStream \<times> port_op list" where
  "sendStep ss (Cmd cmd) =
     (let guard = (if isTransmitting ss then [Sleep 10, Write (ascii '';''), Flush] else []);
          ss1 = (if HasPrefix cmd (ascii ''RX'') then ss\<lparr>isTransmitting := False\<rparr> else ss);
          cmd' = cmd @ [semicolon]
      in if HasPrefix cmd' (ascii ''TX'')
         then (ss1\<lparr>isTransmitting := True\<rparr>, guard @ [Write cmd', Flush] @ [Sleep 10])
         else (ss1, guard @ [Write cmd', Flush]))"
| "sendStep ss (Samples samples) =
     (if isTransmitting ss
      then (ss, [Write (ReplaceAll samples 0x3B 0x3A), Flush])
      else (ss, []))"

fun sendDataStream :: "SerialStream \<Rightarrow> selected list \<Rightarrow> SerialStream \<times> port_op list" where
  "sendDataStream ss [] = (ss, [])"
| "sendDataStream ss (x # xs) =
     (case sendStep ss x of (ss', ops) \<Rightarrow>
       (case sendDataStream ss' xs of (ss'', ops') \<Rightarrow> (ss'', ops @ ops')))"

subsection \<open>Local command responder\<close>

text \<open>
  \<^verbatim>\<open>PushCommand\<close>: the loop over the pieces with their index, then the call.
\<close>

fun pushPieces :: "nat \<Rightarrow> bytes list \<Rightarrow> send list" where
  "pushPieces i [] = []"
| "pushPieces i (cmd # cmds) =
     (if cmd \<noteq> [] \<or> i = 0
      then (if HasPrefix cmd (ascii ''ID'')
            then [(RepliesBuf, ascii ''ID020;'')]
            else [(CmdsBuf, cmd)])
      else []) @ pushPieces (i + 1) cmds"

definition PushCommand :: "bytes \<Rightarrow> send list" where
  "PushCommand cmdString = pushPieces 0 (Split cmdString semicolon)"

text \<open>
  The text a client sends for the commands \<open>C\<^sub>1, \<dots>, C\<^sub>n\<close>: each command followed
  by the delimiter, \<^verbatim>\<open>C1;C2;...;Cn;\<close>.
\<close>

definition joinCommands :: "bytes list \<Rightarrow> bytes" where
  "joinCommands cs = concat (map (\<lambda>c. c @ [semicolon]) cs)"

text \<open>
  The calls of \<^verbatim>\<open>handleDataChunk\<close> that the loop of \<^verbatim>\<open>receiveDataStream\<close> makes on
  reads that all succeed, one for each read: the engine and the accumulator the call got
  (after \<^verbatim>\<open>buffer.Write\<close>), the engine and the accumulator it left, and its sends.
\<close>

type_synonym call = "SerialStream \<times> bytes \<times> SerialStream \<times> bytes \<times> send list"

fun receiveCalls :: "SerialStream \<Rightarrow> bytes \<Rightarrow> bytes list \<Rightarrow> call list" where
  "receiveCalls ss buffer [] = []"
| "receiveCalls ss buffer (chunk # chunks) =
     (case handleDataChunk ss (buffer @ chunk) of (ss', buffer', out) \<Rightarrow>
       (ss, buffer @ chunk, ss', buffer', out) # receiveCalls ss' buffer' chunks)"

fun callSends :: "call \<Rightarrow> send list" where
  "callSends (ss, buffer, ss', buffer', out) = out"

text \<open>
  The parser of the specification has the states \<open>Idle\<close> and \<open>Streaming\<close>. A call opens
  a streaming burst when it takes the parser from \<open>Idle\<close> to \<open>Streaming\<close>, and ends one
  when it takes it from \<open>Streaming\<close> to \<open>Idle\<close>. \<open>wireOf\<close> is what the sends of a call
  were on the wire, in the words of the specification: the payload of an audio frame with
  the \<^verbatim>\<open>US\<close> sentinel in front when the call opened a burst and the delimiter behind
  when the call ended one; a CAT reply as it was delivered.
\<close>

fun opensBurst :: "call \<Rightarrow> bool" where
  "opensBurst (ss, buffer, ss', buffer', out) = (\<not> isStreamingMode ss \<and> isStreamingMode ss')"

fun endsBurst :: "call \<Rightarrow> bool" where
  "endsBurst (ss, buffer, ss', buffer', out) = (isStreamingMode ss \<and> \<not> isStreamingMode ss')"

fun wireOf :: "call \<Rightarrow> bytes" where
  "wireOf (ss, buffer, ss', buffer', out) =
     concat (map (\<lambda>e.
       if fst e = AudioOutBuf
       then (if opensBurst (ss, buffer, ss', buffer', out) then ascii ''US'' else [])
            @ snd e
            @ (if endsBurst (ss, buffer, ss', buffer', out) then [semicolon] else [])
       else snd e) out)"

text \<open>
  A call that opens a burst on a frame which carries its delimiter already: the parser
  is not streaming and the accumulator begins with \<^verbatim>\<open>US\<close> and holds a \<^verbatim>\<open>;\<close>.
\<close>

fun burstCarriesDelimiter :: "call \<Rightarrow> bool" where
  "burstCarriesDelimiter (ss, buffer, ss', buffer', out) =
     (\<not> isStreamingMode ss \<and> HasPrefix buffer (ascii ''US'') \<and> semicolon \<in> set buffer)"

section \<open>Facts about the library calls\<close>

declare Split.simps [simp del]

lemma IndexByte_absent: "c \<notin> set s \<Longrightarrow> IndexByte s c = -1"
  by (induction s) auto

lemma IndexByte_first: "c \<notin> set pre \<Longrightarrow> IndexByte (pre @ c # post) c = int (length pre)"
  by (induction pre) (auto simp: Let_def)

lemma ReadBytes_eof: "c \<notin> set b \<Longrightarrow> ReadBytes b c = (b, Some EOF, [])"
  by (simp add: ReadBytes_def IndexByte_absent)

lemma ReadBytes_delim:
  "c \<notin> set pre \<Longrightarrow> ReadBytes (pre @ c # post) c = (pre @ [c], None, post)"
  by (simp add: ReadBytes_def IndexByte_first)

lemma ReadBytes_cases:
  obtains (eof) "c \<notin> set b" "ReadBytes b c = (b, Some EOF, [])"
  | (delim) pre post where "b = pre @ c # post" "c \<notin> set pre"
      "ReadBytes b c = (pre @ [c], None, post)"
proof (cases "c \<in> set b")
  case True
  then obtain pre post where "b = pre @ c # post" "c \<notin> set pre"
    by (meson split_list_first)
  then show ?thesis using delim ReadBytes_delim by blast
next
  case False
  then show ?thesis using eof ReadBytes_eof by blast
qed

lemma CutSuffix_restore:
  "CutSuffix s suf = (r, h) \<Longrightarrow> r @ (if h then suf else []) = s"
  by (auto simp: CutSuffix_def HasSuffix_def split: if_splits)
    (metis append_take_drop_id)


lemma HasPrefix_restore: "HasPrefix s p \<Longrightarrow> p @ drop (length p) s = s"
  by (metis HasPrefix_def append_take_drop_id)

lemma HasPrefix_append: "HasPrefix s p \<Longrightarrow> HasPrefix (s @ t) p"
  by (auto simp: HasPrefix_def)

lemma Split_absent: "c \<notin> set s \<Longrightarrow> Split s c = [s]"
  by (subst Split.simps) (simp add: IndexByte_absent)

lemma Split_first: "c \<notin> set pre \<Longrightarrow> Split (pre @ c # post) c = pre # Split post c"
  by (subst Split.simps) (simp add: IndexByte_first)

lemma Split_pieces: "p \<in> set (Split s c) \<Longrightarrow> c \<notin> set p"
proof (induction s arbitrary: p rule: length_induct)
  case (1 s)
  show ?case
  proof (cases "c \<in> set s")
    case True
    then obtain pre post where s: "s = pre @ c # post" "c \<notin> set pre"
      by (meson split_list_first)
    have "length post < length s" using s by simp
    with 1(1) have IH: "\<And>q. q \<in> set (Split post c) \<Longrightarrow> c \<notin> set q"
      by blast
    from 1(2) s have "p = pre \<or> p \<in> set (Split post c)"
      by (simp add: Split_first)
    with IH s show ?thesis by blast
  next
    case False
    with 1 show ?thesis by (simp add: Split_absent)
  qed
qed

lemma Split_join:
  "\<forall>p\<in>set cs. c \<notin> set p \<Longrightarrow> Split (concat (map (\<lambda>p. p @ [c]) cs)) c = cs @ [[]]"
  by (induction cs) (simp_all add: Split_absent Split_first)

lemma CutSuffix_absent: "c \<notin> set s \<Longrightarrow> CutSuffix s [c] = (s, False)"
proof -
  assume a: "c \<notin> set s"
  have "\<not> HasSuffix s [c]"
  proof
    assume "HasSuffix s [c]"
    then have "drop (length s - 1) s = [c]" by (simp add: HasSuffix_def)
    then have "c \<in> set (drop (length s - 1) s)" by simp
    then have "c \<in> set s" by (rule in_set_dropD)
    with a show False by simp
  qed
  then show ?thesis by (simp add: CutSuffix_def)
qed

lemma CutSuffix_snoc: "CutSuffix (s @ [c]) [c] = (s, True)"
  by (simp add: CutSuffix_def HasSuffix_def)

lemma first_delim_unique:
  "c \<notin> set xs \<Longrightarrow> c \<notin> set xs' \<Longrightarrow> xs @ c # ys = xs' @ c # ys' \<Longrightarrow>
   xs = xs' \<and> ys = ys'"
proof (induction xs arbitrary: xs')
  case Nil
  then show ?case by (cases xs') auto
next
  case (Cons x xs)
  then show ?case by (cases xs') auto
qed

lemma no_delim_is_short:
  assumes "buf @ rest = a @ c # tail" and "c \<notin> set buf"
  shows "length buf \<le> length a"
proof (rule ccontr)
  assume "\<not> length buf \<le> length a"
  then have l: "length a < length buf" by simp
  then have "(buf @ rest) ! length a = buf ! length a"
    by (simp add: nth_append)
  moreover have "(a @ c # tail) ! length a = c" by simp
  ultimately have "buf ! length a = c" using assms(1) by simp
  with l assms(2) show False by (metis nth_mem)
qed

lemma queue_Pair_same: "queue c (map (Pair c) xs) = xs"
  by (induction xs) (simp_all add: queue_def)

lemma queue_Pair_other: "c \<noteq> c' \<Longrightarrow> queue c (map (Pair c') xs) = []"
  by (induction xs) (simp_all add: queue_def)

section \<open>Frame demultiplexer: what \<open>receiveDataStream\<close> emits\<close>

lemma ReadBytes_conserve: "ReadBytes b c = (data, err, b1) \<Longrightarrow> data @ b1 = b"
  by (cases rule: ReadBytes_cases [of c b]) auto

lemma length_ascii_US: "length (ascii ''US'') = 2"
  by (simp add: ascii_def)

text \<open>
  One call of \<^verbatim>\<open>handleDataChunk\<close>, branch by branch.
\<close>

lemma HasPrefix_US_snoc:
  assumes "HasPrefix pre (ascii ''US'')"
  shows "HasPrefix (pre @ [c]) (ascii ''US'')" and "drop 2 (pre @ [c]) = drop 2 pre @ [c]"
  using assms by (simp_all add: HasPrefix_def ascii_def)

lemma handleDataChunk_streaming_eof:
  assumes "isStreamingMode ss" and "buf \<noteq> []" and "semicolon \<notin> set buf"
  shows "handleDataChunk ss buf = (ss\<lparr>isStreamingMode := True\<rparr>, [], [(AudioOutBuf, buf)])"
  using assms by (simp add: handleDataChunk_def ReadBytes_eof CutSuffix_absent)

lemma handleDataChunk_streaming_delim:
  assumes "isStreamingMode ss" and "semicolon \<notin> set pre"
  shows "handleDataChunk ss (pre @ semicolon # post)
       = (ss\<lparr>isStreamingMode := False\<rparr>, post, [(AudioOutBuf, pre)])"
  using assms by (simp add: handleDataChunk_def ReadBytes_delim CutSuffix_snoc)

lemma handleDataChunk_idle_wait:
  assumes "\<not> isStreamingMode ss" and "semicolon \<notin> set buf" and "length buf < chunkLength ss"
  shows "handleDataChunk ss buf = (ss, buf, [])"
  using assms by (simp add: handleDataChunk_def ReadBytes_eof)

lemma handleDataChunk_idle_burst:
  assumes "\<not> isStreamingMode ss" and "semicolon \<notin> set pre"
    and "HasPrefix pre (ascii ''US'')"
  shows "handleDataChunk ss (pre @ semicolon # post)
       = (ss\<lparr>isStreamingMode := True\<rparr>, post, [(AudioOutBuf, drop 2 pre)])"
  using assms(1,2) HasPrefix_US_snoc [OF assms(3), of semicolon]
  by (simp add: handleDataChunk_def ReadBytes_delim CutSuffix_snoc)

lemma receiveLoop_step:
  "handleDataChunk ss (b @ c) = (ss', b', out) \<Longrightarrow>
   fst (receiveLoop ss b (Inr c # reads)) = out @ fst (receiveLoop ss' b' reads)"
  by (simp split: prod.splits)

lemma handleDataChunk_idle_eof_burst:
  assumes "\<not> isStreamingMode ss" and "semicolon \<notin> set buf"
    and "\<not> length buf < chunkLength ss" and "HasPrefix buf (ascii ''US'')"
  shows "handleDataChunk ss buf
       = (ss\<lparr>isStreamingMode := True\<rparr>, [], [(AudioOutBuf, drop 2 buf)])"
proof -
  have "buf \<noteq> []" using assms(4) by (auto simp: HasPrefix_def ascii_def)
  moreover have "semicolon \<notin> set (drop 2 buf)"
    using assms(2) by (meson in_set_dropD)
  ultimately show ?thesis
    using assms by (simp add: handleDataChunk_def ReadBytes_eof CutSuffix_absent)
qed

lemma handleDataChunk_idle_eof_reply:
  assumes "\<not> isStreamingMode ss" and "semicolon \<notin> set buf" and "buf \<noteq> []"
    and "\<not> length buf < chunkLength ss" and "\<not> HasPrefix buf (ascii ''US'')"
  shows "handleDataChunk ss buf
       = (ss\<lparr>isStreamingMode := False\<rparr>, [], [(RepliesBuf, buf)])"
  using assms by (simp add: handleDataChunk_def ReadBytes_eof)

lemma handleDataChunk_idle_delim_reply:
  assumes "\<not> isStreamingMode ss" and "semicolon \<notin> set pre"
    and "\<not> HasPrefix (pre @ [semicolon]) (ascii ''US'')"
  shows "handleDataChunk ss (pre @ semicolon # post)
       = (ss\<lparr>isStreamingMode := False\<rparr>, post, [(RepliesBuf, pre @ [semicolon])])"
  using assms by (simp add: handleDataChunk_def ReadBytes_delim)

lemma handleDataChunk_wire:
  assumes h: "handleDataChunk ss b = (ss', b', out)"
    and ok: "\<not> burstCarriesDelimiter (ss, b, ss', b', out)"
  shows "wireOf (ss, b, ss', b', out) @ b' = b"
proof (cases "b = []")
  case True
  with h show ?thesis by (simp add: handleDataChunk_def)
next
  case False
  show ?thesis
  proof (cases rule: ReadBytes_cases [of semicolon b])
    case eof
    show ?thesis
    proof (cases "isStreamingMode ss")
      case True
      from handleDataChunk_streaming_eof [OF True False eof(1)] h True
      show ?thesis by auto
    next
      case idle: False
      show ?thesis
      proof (cases "length b < chunkLength ss")
        case True
        from handleDataChunk_idle_wait [OF idle eof(1) True] h show ?thesis by auto
      next
        case long: False
        show ?thesis
        proof (cases "HasPrefix b (ascii ''US'')")
          case True
          from handleDataChunk_idle_eof_burst [OF idle eof(1) long True] h idle
            HasPrefix_restore [OF True]
          show ?thesis by (auto simp: length_ascii_US)
        next
          case False
          from handleDataChunk_idle_eof_reply [OF idle eof(1) \<open>b \<noteq> []\<close> long False] h
          show ?thesis by auto
        qed
      qed
    qed
  next
    case (delim pre post)
    show ?thesis
    proof (cases "isStreamingMode ss")
      case True
      from handleDataChunk_streaming_delim [OF True delim(2), of post] h True delim(1)
      show ?thesis by auto
    next
      case idle: False
      from ok idle delim(1) have "\<not> HasPrefix (pre @ semicolon # post) (ascii ''US'')"
        by simp
      with HasPrefix_append [of "pre @ [semicolon]" "ascii ''US''" post]
      have "\<not> HasPrefix (pre @ [semicolon]) (ascii ''US'')" by auto
      from handleDataChunk_idle_delim_reply [OF idle delim(2) this] h delim(1)
      show ?thesis by auto
    qed
  qed
qed

lemma receiveLoop_wire:
  assumes "\<forall>c \<in> set (receiveCalls ss b chunks). \<not> burstCarriesDelimiter c"
  shows "\<exists>ss' b'.
     receiveLoop ss b (map Inr chunks)
       = (concat (map callSends (receiveCalls ss b chunks)), Inr (ss', b'))
     \<and> concat (map wireOf (receiveCalls ss b chunks)) @ b' = b @ concat chunks"
  using assms
proof (induction chunks arbitrary: ss b)
  case Nil
  show ?case by simp
next
  case (Cons chunk chunks)
  obtain ss1 b1 out1 where h: "handleDataChunk ss (b @ chunk) = (ss1, b1, out1)"
    by (cases "handleDataChunk ss (b @ chunk)") auto
  then have calls: "receiveCalls ss b (chunk # chunks)
      = (ss, b @ chunk, ss1, b1, out1) # receiveCalls ss1 b1 chunks"
    by simp
  from Cons.prems have "\<forall>c \<in> set ((ss, b @ chunk, ss1, b1, out1) # receiveCalls ss1 b1 chunks).
      \<not> burstCarriesDelimiter c"
    by (simp only: calls)
  then have ok1: "\<not> burstCarriesDelimiter (ss, b @ chunk, ss1, b1, out1)"
    and ok2: "\<forall>c \<in> set (receiveCalls ss1 b1 chunks). \<not> burstCarriesDelimiter c"
    by simp_all
  from handleDataChunk_wire [OF h ok1]
  have w1: "wireOf (ss, b @ chunk, ss1, b1, out1) @ b1 = b @ chunk" .
  from Cons.IH [OF ok2] obtain ss' b' where
    r: "receiveLoop ss1 b1 (map Inr chunks)
          = (concat (map callSends (receiveCalls ss1 b1 chunks)), Inr (ss', b'))"
    and w2: "concat (map wireOf (receiveCalls ss1 b1 chunks)) @ b' = b1 @ concat chunks"
    by blast
  have "receiveLoop ss b (map Inr (chunk # chunks))
      = (concat (map callSends (receiveCalls ss b (chunk # chunks))), Inr (ss', b'))"
    using h r by (simp only: calls) simp
  moreover have "concat (map wireOf (receiveCalls ss b (chunk # chunks))) @ b'
      = b @ concat (chunk # chunks)"
  proof -
    have "concat (map wireOf (receiveCalls ss b (chunk # chunks))) @ b'
        = wireOf (ss, b @ chunk, ss1, b1, out1)
          @ (concat (map wireOf (receiveCalls ss1 b1 chunks)) @ b')"
      by (simp only: calls) simp
    also have "\<dots> = (wireOf (ss, b @ chunk, ss1, b1, out1) @ b1) @ concat chunks"
      by (simp only: w2) simp
    also have "\<dots> = (b @ chunk) @ concat chunks" by (simp only: w1)
    finally show ?thesis by simp
  qed
  ultimately show ?case by blast
qed

text \<open>
  Claim C1, as amended. Take any sequence of reads of the link in which no call opens a
  burst on a frame that carries its delimiter already. The worker runs to the end of the
  reads; what it emits is the sends of its calls, in order; and the payloads emitted,
  followed by the bytes still held in the accumulator, are the inbound byte sequence with
  exactly these bytes removed: the \<^verbatim>\<open>US\<close> sentinel of each frame that opened a streaming
  burst and the delimiter of each frame that ended one. Put back by \<open>wireOf\<close>, they give
  the inbound bytes again, so nothing else is removed and the order is kept.
\<close>

theorem receiveDataStream_conserves:
  assumes "\<forall>c \<in> set (receiveCalls ss [] chunks). \<not> burstCarriesDelimiter c"
  shows "\<exists>ss' buffer'.
     receiveDataStream ss (map Inr chunks)
       = (concat (map callSends (receiveCalls ss [] chunks)), Inr (ss', buffer'))
     \<and> concat (map wireOf (receiveCalls ss [] chunks)) @ buffer' = concat chunks"
  using receiveLoop_wire [OF assms] by (simp add: receiveDataStream_def)

text \<open>
  A run with a reply, a burst opened by a full chunk, the end of the burst, a second
  reply that waits one read, and two bytes that stay in the accumulator.
\<close>

theorem receiveDataStream_conserves_witness:
  "concat (map callSends (receiveCalls NewSerialStream []
      [ascii ''FA;'', ascii ''US'' @ replicate 46 0x80, [0x80, 0x81] @ ascii '';IF;'', ascii ''ID'']))
     = [(RepliesBuf, ascii ''FA;''), (AudioOutBuf, replicate 46 0x80),
        (AudioOutBuf, [0x80, 0x81]), (RepliesBuf, ascii ''IF;'')]
   \<and> (\<exists>ss' buffer'.
     receiveDataStream NewSerialStream (map Inr
      [ascii ''FA;'', ascii ''US'' @ replicate 46 0x80, [0x80, 0x81] @ ascii '';IF;'', ascii ''ID''])
       = (concat (map callSends (receiveCalls NewSerialStream []
      [ascii ''FA;'', ascii ''US'' @ replicate 46 0x80, [0x80, 0x81] @ ascii '';IF;'', ascii ''ID''])),
          Inr (ss', buffer'))
     \<and> concat (map wireOf (receiveCalls NewSerialStream []
      [ascii ''FA;'', ascii ''US'' @ replicate 46 0x80, [0x80, 0x81] @ ascii '';IF;'', ascii ''ID''])) @ buffer'
       = concat [ascii ''FA;'', ascii ''US'' @ replicate 46 0x80, [0x80, 0x81] @ ascii '';IF;'', ascii ''ID''])"
proof
  show "concat (map callSends (receiveCalls NewSerialStream []
      [ascii ''FA;'', ascii ''US'' @ replicate 46 0x80, [0x80, 0x81] @ ascii '';IF;'', ascii ''ID'']))
     = [(RepliesBuf, ascii ''FA;''), (AudioOutBuf, replicate 46 0x80),
        (AudioOutBuf, [0x80, 0x81]), (RepliesBuf, ascii ''IF;'')]"
    by code_simp
next
  have ok: "\<forall>c \<in> set (receiveCalls NewSerialStream []
      [ascii ''FA;'', ascii ''US'' @ replicate 46 0x80, [0x80, 0x81] @ ascii '';IF;'', ascii ''ID'']).
      \<not> burstCarriesDelimiter c"
    by code_simp
  show "\<exists>ss' buffer'.
     receiveDataStream NewSerialStream (map Inr
      [ascii ''FA;'', ascii ''US'' @ replicate 46 0x80, [0x80, 0x81] @ ascii '';IF;'', ascii ''ID''])
       = (concat (map callSends (receiveCalls NewSerialStream []
      [ascii ''FA;'', ascii ''US'' @ replicate 46 0x80, [0x80, 0x81] @ ascii '';IF;'', ascii ''ID''])),
          Inr (ss', buffer'))
     \<and> concat (map wireOf (receiveCalls NewSerialStream []
      [ascii ''FA;'', ascii ''US'' @ replicate 46 0x80, [0x80, 0x81] @ ascii '';IF;'', ascii ''ID''])) @ buffer'
       = concat [ascii ''FA;'', ascii ''US'' @ replicate 46 0x80, [0x80, 0x81] @ ascii '';IF;'', ascii ''ID'']"
    by (rule receiveDataStream_conserves [OF ok])
qed

text \<open>
  Claim C1 as it is written fails, because a call emits at most one frame and the rest
  waits for the next read: one read that delivers the two replies \<^verbatim>\<open>FA;IF;\<close>, with no
  sentinel and no burst in it, emits \<^verbatim>\<open>FA;\<close> alone.
\<close>

theorem receiveDataStream_conserves_counterexample:
  "concat (map snd (fst (receiveDataStream NewSerialStream [Inr (ascii ''FA;IF;'')])))
     = ascii ''FA;''
   \<and> ascii ''FA;'' \<noteq> ascii ''FA;IF;''"
  by (simp add: receiveDataStream_def handleDataChunk_def ReadBytes_def NewSerialStream_def
      ascii_def semicolon_def HasPrefix_def)

text \<open>
  Claim C2. On the inbound bytes \<^verbatim>\<open>US\<close> 0x80 0x81 \<^verbatim>\<open>;FA00014074000;\<close>, from the
  initial state, the code emits the audio frame 0x80 0x81 and stays in streaming mode,
  with \<^verbatim>\<open>FA00014074000;\<close> left in the accumulator; when the two frames come in two
  reads, the second is emitted as an audio frame \<^verbatim>\<open>FA00014074000\<close>, not as a CAT
  reply. The claim asks for the \<open>Idle\<close> state after the first frame and for one CAT
  reply.
\<close>

theorem receiveDataStream_interleaved:
  "receiveDataStream NewSerialStream
     [Inr (ascii ''US'' @ [0x80, 0x81] @ ascii '';FA00014074000;'')]
   = ([(AudioOutBuf, [0x80, 0x81])],
      Inr (NewSerialStream\<lparr>isStreamingMode := True\<rparr>, ascii ''FA00014074000;''))
   \<and> receiveDataStream NewSerialStream
     [Inr (ascii ''US'' @ [0x80, 0x81] @ ascii '';''), Inr (ascii ''FA00014074000;'')]
   = ([(AudioOutBuf, [0x80, 0x81]), (AudioOutBuf, ascii ''FA00014074000'')],
      Inr (NewSerialStream, []))"
  by (simp add: receiveDataStream_def handleDataChunk_def ReadBytes_def CutSuffix_def
      HasSuffix_def NewSerialStream_def ascii_def semicolon_def HasPrefix_def)

text \<open>
  The reason, for every state that is not streaming, is \<open>handleDataChunk_idle_burst\<close>:
  the branch that opens a burst strips the delimiter of a \<^verbatim>\<open>US\<close> frame and drops the
  flag that says it was there (the mode stays on), while the branch for streaming mode
  leaves the mode on that flag (\<open>handleDataChunk_streaming_delim\<close>). The outcome does not
  depend on how the link cuts these bytes into reads: the run emits no CAT reply at all.
\<close>

lemma interleaved_first_call_carries_delimiter:
  "burstCarriesDelimiter (hd (receiveCalls NewSerialStream []
     [ascii ''US'' @ [0x80, 0x81] @ ascii '';'', ascii ''FA00014074000;'']))"
  by code_simp

lemma receiveLoop_quiet:
  "concat cs = [] \<Longrightarrow> receiveLoop ss [] (map Inr cs) = ([], Inr (ss, []))"
  by (induction cs) (simp_all add: handleDataChunk_def)

lemma receiveLoop_streaming_no_reply:
  assumes "isStreamingMode ss" and "b @ concat cs = y @ [semicolon]" and "semicolon \<notin> set y"
  shows "queue RepliesBuf (fst (receiveLoop ss b (map Inr cs))) = []"
  using assms
proof (induction cs arbitrary: ss b y)
  case Nil
  then show ?case by (simp add: queue_def)
next
  case (Cons c cs)
  let ?buf = "b @ c"
  consider (empty) "?buf = []" | (eof) "?buf \<noteq> []" "semicolon \<notin> set ?buf"
    | (delim) "semicolon \<in> set ?buf"
    by fastforce
  then show ?case
  proof cases
    case empty
    then have h: "handleDataChunk ss ?buf = (ss, [], [])"
      by (simp add: handleDataChunk_def)
    from empty Cons.prems(2) have "[] @ concat cs = y @ [semicolon]" by simp
    from Cons.IH [OF Cons.prems(1) this Cons.prems(3)] receiveLoop_step [OF h]
    show ?thesis by (simp add: queue_def)
  next
    case eof
    with Cons.prems(1) have h: "handleDataChunk ss ?buf
        = (ss\<lparr>isStreamingMode := True\<rparr>, [], [(AudioOutBuf, ?buf)])"
      by (intro handleDataChunk_streaming_eof)
    from Cons.prems(2) have e: "?buf @ concat cs = y @ [semicolon]" by simp
    obtain y' where y': "concat cs = y' @ [semicolon]" "semicolon \<notin> set y'"
    proof (cases "concat cs" rule: rev_cases)
      case Nil
      with e have "?buf = y @ [semicolon]" by simp
      then have "semicolon \<in> set ?buf" by (simp only: set_append) simp
      with eof(2) show ?thesis by simp
    next
      case (snoc ys z)
      with e have "(?buf @ ys) @ [z] = y @ [semicolon]" by simp
      then have "z = semicolon" "?buf @ ys = y" by (simp_all only: append1_eq_conv)
      with Cons.prems(3) snoc that show ?thesis by auto
    qed
    have "queue RepliesBuf (fst (receiveLoop (ss\<lparr>isStreamingMode := True\<rparr>) [] (map Inr cs))) = []"
      by (rule Cons.IH [of _ "[]" y']) (simp_all add: y')
    with receiveLoop_step [OF h] show ?thesis by (simp add: queue_def)
  next
    case delim
    then obtain pre post where p: "?buf = pre @ semicolon # post" "semicolon \<notin> set pre"
      by (meson split_list_first)
    from Cons.prems(2) have "(b @ c) @ concat cs = y @ [semicolon]" by simp
    then have "(pre @ semicolon # post) @ concat cs = y @ [semicolon]"
      by (simp only: p(1))
    then have eq: "pre @ semicolon # (post @ concat cs) = y @ semicolon # []" by simp
    note both = first_delim_unique [OF p(2) Cons.prems(3) eq]
    have q: "pre = y" "post @ concat cs = []"
      using both by (rule conjunct1, rule conjunct2)
    from q(2) have post: "post = []" and rest: "concat cs = []" by simp_all
    have h: "handleDataChunk ss ?buf
        = (ss\<lparr>isStreamingMode := False\<rparr>, post, [(AudioOutBuf, pre)])"
      unfolding p(1) using Cons.prems(1) p(2) by (rule handleDataChunk_streaming_delim)
    from receiveLoop_quiet [OF rest] receiveLoop_step [OF h] show ?thesis
      by (simp add: queue_def post)
  qed
qed

lemma receiveLoop_burst_no_reply:
  assumes "\<not> isStreamingMode ss" and "semicolon \<notin> set b"
    and "b @ concat cs = a @ semicolon # y @ [semicolon]"
    and "semicolon \<notin> set a" and "semicolon \<notin> set y"
    and "HasPrefix a (ascii ''US'')" and "length a < chunkLength ss"
  shows "queue RepliesBuf (fst (receiveLoop ss b (map Inr cs))) = []"
  using assms
proof (induction cs arbitrary: b)
  case Nil
  then show ?case by (simp add: queue_def)
next
  case (Cons c cs)
  let ?buf = "b @ c"
  from Cons.prems(3) have e: "?buf @ concat cs = a @ semicolon # y @ [semicolon]" by simp
  consider (empty) "?buf = []" | (eof) "?buf \<noteq> []" "semicolon \<notin> set ?buf"
    | (delim) "semicolon \<in> set ?buf"
    by fastforce
  then show ?case
  proof cases
    case empty
    then have h: "handleDataChunk ss ?buf = (ss, [], [])"
      by (simp add: handleDataChunk_def)
    from empty e have "[] @ concat cs = a @ semicolon # y @ [semicolon]" by simp
    from Cons.IH [OF Cons.prems(1) _ this Cons.prems(4-7)] receiveLoop_step [OF h]
    show ?thesis by (simp add: queue_def)
  next
    case eof
    have "length ?buf \<le> length a"
      using e eof(2) by (rule no_delim_is_short)
    with Cons.prems(7) have "length ?buf < chunkLength ss" by simp
    with Cons.prems(1) eof(2) have h: "handleDataChunk ss ?buf = (ss, ?buf, [])"
      by (intro handleDataChunk_idle_wait)
    from Cons.IH [OF Cons.prems(1) eof(2) e Cons.prems(4-7)] receiveLoop_step [OF h]
    show ?thesis by (simp add: queue_def)
  next
    case delim
    then obtain pre post where p: "?buf = pre @ semicolon # post" "semicolon \<notin> set pre"
      by (meson split_list_first)
    from e have "(pre @ semicolon # post) @ concat cs = a @ semicolon # y @ [semicolon]"
      by (simp only: p(1))
    then have eq: "pre @ semicolon # (post @ concat cs) = a @ semicolon # (y @ [semicolon])"
      by simp
    note both = first_delim_unique [OF p(2) Cons.prems(4) eq]
    have q: "pre = a" "post @ concat cs = y @ [semicolon]"
      using both by (rule conjunct1, rule conjunct2)
    have h: "handleDataChunk ss ?buf
        = (ss\<lparr>isStreamingMode := True\<rparr>, post, [(AudioOutBuf, drop 2 pre)])"
      unfolding p(1) using Cons.prems(1) p(2) Cons.prems(6) [folded q(1)]
      by (rule handleDataChunk_idle_burst)
    have "queue RepliesBuf (fst (receiveLoop (ss\<lparr>isStreamingMode := True\<rparr>) post (map Inr cs))) = []"
      by (rule receiveLoop_streaming_no_reply [OF _ q(2) Cons.prems(5)]) simp
    with receiveLoop_step [OF h] show ?thesis by (simp add: queue_def)
  qed
qed

lemma interleaved_any_reads_no_reply:
  assumes "concat chunks = ascii ''US'' @ [0x80, 0x81] @ ascii '';FA00014074000;''"
  shows "queue RepliesBuf (fst (receiveDataStream NewSerialStream (map Inr chunks))) = []"
proof -
  have "[] @ concat chunks
      = (ascii ''US'' @ [0x80, 0x81]) @ semicolon # ascii ''FA00014074000'' @ [semicolon]"
    using assms by (simp add: ascii_def semicolon_def)
  then show ?thesis
    unfolding receiveDataStream_def
    by (rule receiveLoop_burst_no_reply [rotated 2])
      (simp_all add: NewSerialStream_def ascii_def semicolon_def HasPrefix_def)
qed

lemma handleDataChunk_chunkLength:
  "handleDataChunk ss b = (ss', b', out) \<Longrightarrow> chunkLength ss' = chunkLength ss"
  by (auto simp: handleDataChunk_def Let_def split: if_splits prod.splits)

lemma handleDataChunk_reply_shape:
  assumes "handleDataChunk ss b = (ss', b', out)" and "(RepliesBuf, d) \<in> set out"
  shows "(\<exists>p. d = p @ [semicolon] \<and> semicolon \<notin> set p)
       \<or> (semicolon \<notin> set d \<and> chunkLength ss \<le> length d)"
proof (cases rule: ReadBytes_cases [of semicolon b])
  case eof
  with assms show ?thesis
    by (auto simp: handleDataChunk_def Let_def split: if_splits prod.splits)
next
  case (delim pre post)
  with assms show ?thesis
    by (auto simp: handleDataChunk_def Let_def split: if_splits prod.splits)
qed

text \<open>
  Claim C6, as amended. For every parser state, accumulator and sequence of reads, every
  CAT reply frame the demultiplexer emits either ends with the delimiter \<^verbatim>\<open>;\<close>, which
  is then its only \<^verbatim>\<open>;\<close> byte, or contains no \<^verbatim>\<open>;\<close> at all and is at least
  \<open>chunkLength\<close> bytes long (an accumulator without delimiter that is not held back any
  longer and does not begin with \<^verbatim>\<open>US\<close>).
\<close>

theorem receiveLoop_reply_shape:
  "(RepliesBuf, d) \<in> set (fst (receiveLoop ss buffer reads)) \<Longrightarrow>
   (\<exists>p. d = p @ [semicolon] \<and> semicolon \<notin> set p)
   \<or> (semicolon \<notin> set d \<and> chunkLength ss \<le> length d)"
proof (induction ss buffer reads rule: receiveLoop.induct)
  case (1 ss buffer)
  then show ?case by simp
next
  case (2 ss buffer e reads)
  then show ?case by simp
next
  case (3 ss buffer chunk reads)
  obtain ss1 b1 out1 where h: "handleDataChunk ss (buffer @ chunk) = (ss1, b1, out1)"
    by (cases "handleDataChunk ss (buffer @ chunk)") auto
  obtain outs res where r: "receiveLoop ss1 b1 reads = (outs, res)"
    by (cases "receiveLoop ss1 b1 reads") auto
  from 3(2) h r have "(RepliesBuf, d) \<in> set out1 \<or> (RepliesBuf, d) \<in> set outs"
    by simp
  then show ?case
  proof
    assume "(RepliesBuf, d) \<in> set out1"
    with h show ?thesis by (rule handleDataChunk_reply_shape)
  next
    assume "(RepliesBuf, d) \<in> set outs"
    then have "(RepliesBuf, d) \<in> set (fst (receiveLoop ss1 b1 reads))"
      using r by simp
    from 3(1) [OF h [symmetric] refl this] handleDataChunk_chunkLength [OF h]
    show ?thesis by simp
  qed
qed

theorem receiveLoop_reply_shape_witness:
  "fst (receiveLoop NewSerialStream [] [Inr (ascii ''FA00014074000;'')])
     = [(RepliesBuf, ascii ''FA00014074000;'')]
   \<and> ((\<exists>p. ascii ''FA00014074000;'' = p @ [semicolon] \<and> semicolon \<notin> set p)
      \<or> (semicolon \<notin> set (ascii ''FA00014074000;'')
          \<and> chunkLength NewSerialStream \<le> length (ascii ''FA00014074000;'')))"
proof -
  have e: "fst (receiveLoop NewSerialStream [] [Inr (ascii ''FA00014074000;'')])
     = [(RepliesBuf, ascii ''FA00014074000;'')]"
    by (simp add: handleDataChunk_def ReadBytes_def NewSerialStream_def
      ascii_def semicolon_def HasPrefix_def)
  then have "(RepliesBuf, ascii ''FA00014074000;'')
      \<in> set (fst (receiveLoop NewSerialStream [] [Inr (ascii ''FA00014074000;'')]))"
    by simp
  from receiveLoop_reply_shape [OF this] e show ?thesis by blast
qed

text \<open>
  Claim C6 as it is written fails on a read of 48 bytes \<^verbatim>\<open>A\<close> in the initial state:
  they are emitted as one CAT reply without any delimiter.
\<close>

theorem receiveLoop_reply_shape_counterexample:
  "fst (receiveDataStream NewSerialStream [Inr (replicate 48 0x41)])
     = [(RepliesBuf, replicate 48 0x41)]
   \<and> semicolon \<notin> set (replicate 48 (0x41 :: byte))"
  by code_simp




section \<open>Mode-aware serializer: what \<open>sendDataStream\<close> writes\<close>

text \<open>
  Claim C3. With the transmitting flag false at the start, the command \<^verbatim>\<open>TX0\<close>, then
  the audio frame 0x80 0x3B 0x90, then the command \<^verbatim>\<open>RX\<close> make the serializer write
  \<^verbatim>\<open>TX0;\<close>, sleep 10 ms, write 0x80 0x3A 0x90, sleep 10 ms, write the guard byte
  \<^verbatim>\<open>;\<close>, then write \<^verbatim>\<open>RX;\<close>, in this order and with a flush after each write; the
  flag is false again at the end.
\<close>

theorem sendDataStream_TX_cycle:
  assumes "\<not> isTransmitting ss"
  shows "sendDataStream ss [Cmd (ascii ''TX0''), Samples [0x80, 0x3B, 0x90], Cmd (ascii ''RX'')]
    = (ss, [Write (ascii ''TX0;''), Flush, Sleep 10,
            Write [0x80, 0x3A, 0x90], Flush,
            Sleep 10, Write (ascii '';''), Flush,
            Write (ascii ''RX;''), Flush])"
proof -
  have "ss\<lparr>isTransmitting := False\<rparr> = ss" using assms by simp
  then show ?thesis
    using assms by (simp add: ascii_def semicolon_def HasPrefix_def ReplaceAll_def)
qed

theorem sendDataStream_TX_cycle_witness:
  "sendDataStream NewSerialStream
     [Cmd (ascii ''TX0''), Samples [0x80, 0x3B, 0x90], Cmd (ascii ''RX'')]
    = (NewSerialStream,
       [Write (ascii ''TX0;''), Flush, Sleep 10,
        Write [0x80, 0x3A, 0x90], Flush,
        Sleep 10, Write (ascii '';''), Flush,
        Write (ascii ''RX;''), Flush])"
  using sendDataStream_TX_cycle [of NewSerialStream] by (simp add: NewSerialStream_def)

text \<open>
  Claim C7. While transmitting, an outbound audio frame is written to the link in one
  write, of as many bytes as the frame has, none of them 0x3B: each 0x3B sample has become
  0x3A and every other byte is as it was.
\<close>

theorem sendStep_audio_escaped:
  assumes "isTransmitting ss"
  shows "\<exists>w. sendStep ss (Samples samples) = (ss, [Write w, Flush])
       \<and> 0x3B \<notin> set w
       \<and> length w = length samples
       \<and> (\<forall>i<length samples. w ! i = (if samples ! i = 0x3B then 0x3A else samples ! i))"
  using assms by (auto simp: ReplaceAll_def)

theorem sendStep_audio_escaped_witness:
  "sendStep (NewSerialStream\<lparr>isTransmitting := True\<rparr>) (Samples [0x80, 0x3B, 0x90])
     = (NewSerialStream\<lparr>isTransmitting := True\<rparr>, [Write [0x80, 0x3A, 0x90], Flush])
   \<and> 0x3B \<notin> set [0x80, 0x3A, 0x90 :: byte]"
  using sendStep_audio_escaped [of "NewSerialStream\<lparr>isTransmitting := True\<rparr>" "[0x80, 0x3B, 0x90]"]
  by (auto simp: NewSerialStream_def ReplaceAll_def)

text \<open>
  Claim C8. While the transmitting flag is false, an audio frame taken from the queue is
  dropped: nothing is written to the link and the engine is unchanged; so any number of
  frames in a row leave the link untouched.
\<close>

theorem sendStep_audio_dropped:
  assumes "\<not> isTransmitting ss"
  shows "sendStep ss (Samples samples) = (ss, [])
       \<and> sendDataStream ss (map Samples frames) = (ss, [])"
proof
  show "sendStep ss (Samples samples) = (ss, [])" using assms by simp
  show "sendDataStream ss (map Samples frames) = (ss, [])"
    using assms by (induction frames) simp_all
qed

theorem sendStep_audio_dropped_witness:
  "sendStep NewSerialStream (Samples [0x80, 0x3B, 0x90]) = (NewSerialStream, [])
   \<and> sendDataStream NewSerialStream (map Samples [[0x80], [0x3B, 0x90]]) = (NewSerialStream, [])"
  using sendStep_audio_dropped [of NewSerialStream "[0x80, 0x3B, 0x90]" "[[0x80], [0x3B, 0x90]]"]
  by (simp add: NewSerialStream_def)

section \<open>Local command responder: what \<open>PushCommand\<close> enqueues\<close>

lemma HasPrefix_Nil_ID: "HasPrefix [] (ascii ''ID'') = False"
  by (simp add: HasPrefix_def ascii_def)

lemma pushPieces_forward:
  "\<forall>c\<in>set cs. c \<noteq> [] \<and> \<not> HasPrefix c (ascii ''ID'') \<Longrightarrow>
   pushPieces (Suc i) (cs @ [[]]) = map (Pair CmdsBuf) cs"
  by (induction cs arbitrary: i) simp_all

lemma pushPieces_from_pieces:
  "(CmdsBuf, p) \<in> set (pushPieces i cs) \<Longrightarrow> p \<in> set cs"
  by (induction cs arbitrary: i) (auto split: if_splits)

text \<open>
  Claim C4, as amended. For every non-empty sequence of commands \<open>C\<^sub>1, \<dots>, C\<^sub>n\<close>, each
  free of the delimiter, none beginning with \<^verbatim>\<open>ID\<close>, and every command after the
  first non-empty: \<open>PushCommand\<close> of the single string \<^verbatim>\<open>C1;C2;...;Cn;\<close> puts exactly
  \<open>[C\<^sub>1, \<dots>, C\<^sub>n]\<close>, in order, on the outbound command queue and nothing on the
  inbound reply queue.
\<close>

theorem PushCommand_round_trip:
  assumes "cs \<noteq> []"
    and "\<forall>c\<in>set cs. semicolon \<notin> set c \<and> \<not> HasPrefix c (ascii ''ID'')"
    and "\<forall>c\<in>set (tl cs). c \<noteq> []"
  shows "queue CmdsBuf (PushCommand (joinCommands cs)) = cs
       \<and> queue RepliesBuf (PushCommand (joinCommands cs)) = []"
proof -
  from assms(1) obtain c cs' where cs: "cs = c # cs'" by (cases cs) auto
  have "Split (joinCommands cs) semicolon = cs @ [[]]"
    unfolding joinCommands_def using assms(2) by (intro Split_join) simp
  moreover have "pushPieces (Suc 0) (cs' @ [[]]) = map (Pair CmdsBuf) cs'"
    using assms(2,3) cs by (intro pushPieces_forward) simp
  moreover have "\<not> HasPrefix c (ascii ''ID'')" using assms(2) cs by simp
  ultimately have "PushCommand (joinCommands cs) = map (Pair CmdsBuf) cs"
    by (simp add: PushCommand_def cs)
  then show ?thesis by (simp add: queue_Pair_same queue_Pair_other)
qed

text \<open>
  The warm-up text of \<^verbatim>\<open>main\<close>, \<^verbatim>\<open>;MD2;UA2;RX;\<close>, is such a sequence: its first
  command is the empty one.
\<close>

theorem PushCommand_round_trip_witness:
  "queue CmdsBuf (PushCommand (ascii '';MD2;UA2;RX;''))
     = [[], ascii ''MD2'', ascii ''UA2'', ascii ''RX'']
   \<and> queue RepliesBuf (PushCommand (ascii '';MD2;UA2;RX;'')) = []"
  using PushCommand_round_trip [of "[[], ascii ''MD2'', ascii ''UA2'', ascii ''RX'']"]
  by (simp add: joinCommands_def ascii_def semicolon_def HasPrefix_def)

text \<open>
  Claim C4 as it is written fails where a command after the first is empty: for the
  commands \<^verbatim>\<open>RX\<close> and the empty command the text is \<^verbatim>\<open>RX;;\<close>, and the queue
  receives \<^verbatim>\<open>RX\<close> alone.
\<close>

theorem PushCommand_round_trip_counterexample:
  "joinCommands [ascii ''RX'', []] = ascii ''RX;;''
   \<and> queue CmdsBuf (PushCommand (ascii ''RX;;'')) = [ascii ''RX'']
   \<and> [ascii ''RX''] \<noteq> [ascii ''RX'', []]"
  by (simp add: joinCommands_def PushCommand_def Split.simps queue_def ascii_def
      semicolon_def HasPrefix_def)

text \<open>
  Claim C5, as amended. A call of \<open>PushCommand\<close> with the empty string enqueues exactly
  one command, the empty one, on the outbound command queue (the first piece is routed
  whether or not it is empty) and nothing on the inbound reply queue; so \<open>k\<close> successive
  calls enqueue \<open>k\<close> empty commands.
\<close>

theorem PushCommand_empty:
  "queue CmdsBuf (concat (replicate k (PushCommand []))) = replicate k []
   \<and> queue RepliesBuf (concat (replicate k (PushCommand []))) = []"
proof -
  have one: "PushCommand [] = [(CmdsBuf, [])]"
    by (simp add: PushCommand_def Split.simps HasPrefix_Nil_ID)
  show ?thesis
    by (induction k) (simp_all add: one queue_def)
qed

text \<open>
  Claim C5 as it is written fails at the first call already: the outbound command queue
  is not empty after \<open>PushCommand\<close> of the empty string.
\<close>

theorem PushCommand_empty_counterexample:
  "queue CmdsBuf (PushCommand []) \<noteq> []"
  by (simp add: PushCommand_def Split.simps queue_def HasPrefix_Nil_ID)

text \<open>
  Claim C10. For every input string, no command that \<open>PushCommand\<close> enqueues on the
  outbound command queue contains the delimiter byte \<^verbatim>\<open>;\<close> anywhere.
\<close>

theorem PushCommand_delimiter_free:
  "\<forall>p \<in> set (queue CmdsBuf (PushCommand cmdString)). semicolon \<notin> set p"
proof
  fix p assume "p \<in> set (queue CmdsBuf (PushCommand cmdString))"
  then have "(CmdsBuf, p) \<in> set (PushCommand cmdString)"
    by (auto simp: queue_def)
  then have "p \<in> set (Split cmdString semicolon)"
    unfolding PushCommand_def by (rule pushPieces_from_pieces)
  then show "semicolon \<notin> set p" by (rule Split_pieces)
qed

theorem PushCommand_delimiter_free_witness:
  "queue CmdsBuf (PushCommand (ascii ''FA00014074000;MD2;''))
     = [ascii ''FA00014074000'', ascii ''MD2'']
   \<and> semicolon \<notin> set (ascii ''FA00014074000'')
   \<and> semicolon \<notin> set (ascii ''MD2'')"
proof -
  have q: "queue CmdsBuf (PushCommand (ascii ''FA00014074000;MD2;''))
           = [ascii ''FA00014074000'', ascii ''MD2'']"
    by (simp add: PushCommand_def Split.simps queue_def ascii_def semicolon_def HasPrefix_def)
  from PushCommand_delimiter_free [of "ascii ''FA00014074000;MD2;''"] q
  show ?thesis by simp
qed

end
